theory Spec2Isabelle
  imports Main "HOL-Library.Word"
begin

section \<open>Errors, bytes and byte sources\<close>

text \<open>
  A Go \<^verbatim>\<open>error\<close> is a value with a text (its \<^verbatim>\<open>Error()\<close> method); \<^verbatim>\<open>nil\<close> is
  \<open>None\<close> of \<open>error option\<close>. \<^verbatim>\<open>io.EOF\<close> is one distinguished value: code compares
  against it by identity, so an error made elsewhere with the same text is a different
  value.
\<close>

type_synonym byte = "8 word"

datatype error = EOF | ErrorString string

fun error_Error :: "error \<Rightarrow> string" where
  "error_Error EOF = ''EOF''"
| "error_Error (ErrorString s) = s"

text \<open>
  An \<^verbatim>\<open>io.Reader\<close> is an interface; what one delivers is written here as the finite
  list of what its successive reads will meet: a byte of data, or a fault (a read that
  returns an error). Past the end of the list every read returns \<^verbatim>\<open>io.EOF\<close>.
\<close>

datatype item = Data byte | Fault error

text \<open>The longest run of at most \<open>n\<close> data bytes at the head of the list.\<close>

fun leading :: "item list \<Rightarrow> nat \<Rightarrow> byte list \<times> item list" where
  "leading [] n = ([], [])"
| "leading (Fault e # xs) n = ([], Fault e # xs)"
| "leading (Data b # xs) n =
     (if n = 0 then ([], Data b # xs)
      else (let (bs, rest) = leading xs (n - 1) in (b # bs, rest)))"

text \<open>
  One \<^verbatim>\<open>Read(b)\<close> of the wrapped reader with \<open>n = len(b)\<close>: the bytes put into
  \<open>b\<close>, the error returned, and what is left. As \<^verbatim>\<open>bytes.Reader.Read\<close> does, a read
  at the end returns \<^verbatim>\<open>(0, io.EOF)\<close> and a read of data returns it with a nil error.
\<close>

fun rd :: "item list \<Rightarrow> nat \<Rightarrow> byte list \<times> error option \<times> item list" where
  "rd [] n = ([], Some EOF, [])"
| "rd (Fault e # xs) n = ([], Some e, xs)"
| "rd (Data b # xs) n = (let (bs, rest) = leading (Data b # xs) n in (bs, None, rest))"

record source =
  feed :: "item list"
  released :: bool

text \<open>\<^verbatim>\<open>bytes.NewReader(b)\<close>: delivers the bytes of \<open>b\<close>, then \<^verbatim>\<open>io.EOF\<close>.\<close>

definition bytes_NewReader :: "byte list \<Rightarrow> source" where
  "bytes_NewReader b = \<lparr>feed = map Data b, released = False\<rparr>"

subsection \<open>The closable source\<close>

text \<open>
  Modelled from the spec: the type \<^verbatim>\<open>ReadAutoCloser\<close>, its constructor
  \<^verbatim>\<open>NewReadAutoCloser\<close> and its methods \<^verbatim>\<open>Read\<close> and \<^verbatim>\<open>Close\<close> are used by
  \<^verbatim>\<open>pipes.go\<close> and declared in a file that is not among the sources. The spec (Data
  model, Closable Source): it wraps a byte-stream provider plus a release callback, may be
  empty/uninitialized, and the release runs once the stream is fully consumed or once the
  owning Pipe is explicitly released. The tests read and close a Pipe whose source is the
  zero value (\<^verbatim>\<open>TestPipeIsReader\<close>, \<^verbatim>\<open>TestZeroPipes\<close>) and expect no error and no
  panic, so the empty source reads as exhausted.
\<close>

type_synonym ReadAutoCloser = "source option"

definition NewReadAutoCloser :: "source \<Rightarrow> ReadAutoCloser" where
  "NewReadAutoCloser r = Some r"

fun ReadAutoCloser_Close :: "ReadAutoCloser \<Rightarrow> error option \<times> ReadAutoCloser" where
  "ReadAutoCloser_Close None = (None, None)"
| "ReadAutoCloser_Close (Some s) = (None, Some (s\<lparr>released := True\<rparr>))"

fun ReadAutoCloser_Read ::
  "ReadAutoCloser \<Rightarrow> nat \<Rightarrow> (byte list \<times> error option) \<times> ReadAutoCloser" where
  "ReadAutoCloser_Read None n = (([], Some EOF), None)"
| "ReadAutoCloser_Read (Some s) n =
     (let (bs, e, rest) = rd (feed s) n
      in ((bs, e), Some (s\<lparr>feed := rest, released := (released s \<or> e = Some EOF)\<rparr>)))"

section \<open>The Pipe and the heap of Pipes\<close>

text \<open>
  \<^verbatim>\<open>type Pipe struct { Reader ReadAutoCloser; err error; async bool }\<close>. Every
  function of \<^verbatim>\<open>pipes.go\<close> takes and returns a \<^verbatim>\<open>*Pipe\<close> and updates the Pipe in
  place, so Pipes live in a heap: an address is an index into the list of allocated
  Pipes, \<^verbatim>\<open>nil\<close> is \<open>None\<close>, and allocation appends. Go has no dangling pointers: the
  theorems are about pointers that are \<open>live\<close>.
\<close>

record Pipe =
  Reader :: ReadAutoCloser
  err :: "error option"
  async :: bool

type_synonym heap = "Pipe list"
type_synonym ptr = "nat option"

fun live :: "heap \<Rightarrow> ptr \<Rightarrow> bool" where
  "live h None = True"
| "live h (Some a) = (a < length h)"

text \<open>A nil pointer dereference is the one panic \<^verbatim>\<open>pipes.go\<close> can raise.\<close>

datatype panic = NilPointerDereference

section \<open>The functions of pipes.go\<close>

text \<open>\<^verbatim>\<open>func NewPipe() *Pipe { return &Pipe{ReadAutoCloser{}, nil, false} }\<close>\<close>

definition NewPipe :: "heap \<Rightarrow> ptr \<times> heap" where
  "NewPipe h = (Some (length h), h @ [\<lparr>Reader = None, err = None, async = False\<rparr>])"

fun Close :: "heap \<Rightarrow> ptr \<Rightarrow> error option \<times> heap" where
  "Close h None = (None, h)"
| "Close h (Some a) =
     (let (e, r) = ReadAutoCloser_Close (Reader (h ! a))
      in (e, h[a := (h ! a)\<lparr>Reader := r\<rparr>]))"

fun Error :: "heap \<Rightarrow> ptr \<Rightarrow> error option" where
  "Error h None = None"
| "Error h (Some a) = err (h ! a)"

subsection \<open>ExitStatus\<close>

text \<open>
  \<^verbatim>\<open>regexp.MustCompile(`exit status (\d+)$`).FindStringSubmatch(s)\<close>: the leftmost
  place of \<open>s\<close> from which the text is \<^verbatim>\<open>exit status\<close>, a space, and one or more ASCII
  digits up to the end of \<open>s\<close>. The result is the whole match and the digits, or the empty
  list (Go's nil) when there is no such place.
\<close>

definition isDigit :: "char \<Rightarrow> bool" where
  "isDigit c = (c \<in> set ''0123456789'')"

definition matchHere :: "string \<Rightarrow> string option" where
  "matchHere s =
     (let ds = drop 12 s
      in if take 12 s = ''exit status '' \<and> ds \<noteq> [] \<and> list_all isDigit ds
         then Some ds else None)"

fun FindStringSubmatch :: "string \<Rightarrow> string list" where
  "FindStringSubmatch [] = []"
| "FindStringSubmatch (c # cs) =
     (case matchHere (c # cs) of
        Some ds \<Rightarrow> [c # cs, ds]
      | None \<Rightarrow> FindStringSubmatch cs)"

text \<open>
  \<^verbatim>\<open>strconv.Atoi\<close>: an optional sign and decimal digits; an error (\<open>None\<close>) on
  anything else and on a value outside the range of \<^verbatim>\<open>int\<close>, taken as 64 bits wide.
\<close>

definition digitVal :: "char \<Rightarrow> int" where
  "digitVal c = of_char c - 48"

definition decimal :: "string \<Rightarrow> int" where
  "decimal ds = foldl (\<lambda>n ch. n * 10 + digitVal ch) 0 ds"

definition maxInt :: int where
  "maxInt = 2 ^ 63 - 1"

definition Atoi :: "string \<Rightarrow> int option" where
  "Atoi s =
     (let (neg, ds) =
        (case s of
           [] \<Rightarrow> (False, [])
         | c # r \<Rightarrow> if c = CHR ''-'' then (True, r)
                    else if c = CHR ''+'' then (False, r) else (False, s))
      in if ds = [] \<or> \<not> list_all isDigit ds then None
         else if neg then (if decimal ds > maxInt + 1 then None else Some (- decimal ds))
         else (if decimal ds > maxInt then None else Some (decimal ds)))"

definition ExitStatus :: "heap \<Rightarrow> ptr \<Rightarrow> int" where
  "ExitStatus h p =
     (case Error h p of
        None \<Rightarrow> 0
      | Some perr \<Rightarrow>
          (let match = FindStringSubmatch (error_Error perr)
           in if length match < 2 then 0
              else (case Atoi (match ! 1) of None \<Rightarrow> 0 | Some status \<Rightarrow> status)))"

subsection \<open>Read, SetError, WithReader, WithError\<close>

text \<open>
  \<open>Read h p n\<close> is \<^verbatim>\<open>p.Read(b)\<close> with \<open>n = len(b)\<close>: the bytes read (their number is
  Go's first result), the error, and the heap after the read.
\<close>

fun Read :: "heap \<Rightarrow> ptr \<Rightarrow> nat \<Rightarrow> (byte list \<times> error option) \<times> heap" where
  "Read h None n = (([], Some EOF), h)"
| "Read h (Some a) n =
     (let (res, r) = ReadAutoCloser_Read (Reader (h ! a)) n
      in (res, h[a := (h ! a)\<lparr>Reader := r\<rparr>]))"

fun SetError :: "heap \<Rightarrow> ptr \<Rightarrow> error option \<Rightarrow> heap" where
  "SetError h None e = h"
| "SetError h (Some a) e = h[a := (h ! a)\<lparr>err := e\<rparr>]"

fun WithReader :: "heap \<Rightarrow> ptr \<Rightarrow> source \<Rightarrow> ptr \<times> heap" where
  "WithReader h None r = (None, h)"
| "WithReader h (Some a) r = (Some a, h[a := (h ! a)\<lparr>Reader := NewReadAutoCloser r\<rparr>])"

definition WithError :: "heap \<Rightarrow> ptr \<Rightarrow> error option \<Rightarrow> ptr \<times> heap" where
  "WithError h p e = (p, SetError h p e)"

subsection \<open>Streaming mode\<close>

text \<open>\<^verbatim>\<open>withAsync\<close> has no nil check: \<^verbatim>\<open>p.async = async\<close> panics on a nil Pipe.\<close>

fun withAsync :: "heap \<Rightarrow> ptr \<Rightarrow> bool \<Rightarrow> panic + ptr \<times> heap" where
  "withAsync h None b = Inl NilPointerDereference"
| "withAsync h (Some a) b = Inr (Some a, h[a := (h ! a)\<lparr>async := b\<rparr>])"

text \<open>\<^verbatim>\<open>func Stream() *Pipe { return NewPipe().withAsync(true) }\<close>\<close>

definition Stream :: "heap \<Rightarrow> panic + ptr \<times> heap" where
  "Stream h = (let (p, h') = NewPipe h in withAsync h' p True)"

text \<open>The method \<^verbatim>\<open>func (p *Pipe) Stream() *Pipe\<close>.\<close>

definition Pipe_Stream :: "heap \<Rightarrow> ptr \<Rightarrow> panic + ptr \<times> heap" where
  "Pipe_Stream h p = (if p = None then Inr (p, h) else withAsync h p True)"

subsection \<open>Synchronize\<close>

text \<open>
  \<^verbatim>\<open>io.Copy(&w, p.Reader)\<close> with \<open>w\<close> a \<^verbatim>\<open>bytes.Buffer\<close> runs
  \<^verbatim>\<open>w.ReadFrom(p.Reader)\<close>: it reads into the free space of the buffer, at least
  \<^verbatim>\<open>bytes.MinRead\<close> bytes of it, until a read returns an error, and returns nil when
  that error is \<^verbatim>\<open>io.EOF\<close> and the error otherwise. The loop ends because a read that
  returns no error has consumed data.
\<close>

definition MinRead :: nat where
  "MinRead = 512"

definition pending :: "ReadAutoCloser \<Rightarrow> nat" where
  "pending r = (case r of None \<Rightarrow> 0 | Some s \<Rightarrow> length (feed s))"

lemma leading_length: "length (snd (leading xs n)) \<le> length xs"
  by (induction xs n rule: leading.induct) (auto split: prod.splits)

lemma leading_shrinks:
  "0 < n \<Longrightarrow> length (snd (leading (Data b # xs) n)) < Suc (length xs)"
  using leading_length [of xs "n - 1"] by (auto split: prod.splits)

lemma rd_shrinks: "0 < n \<Longrightarrow> rd xs n = (bs, None, rest) \<Longrightarrow> length rest < length xs"
proof (cases "(xs, n)" rule: rd.cases)
  case (3 b ys m)
  assume "0 < n" and "rd xs n = (bs, None, rest)"
  with 3 have "rest = snd (leading (Data b # ys) n)"
    by (auto split: prod.splits if_splits)
  with leading_shrinks [of n b ys] \<open>0 < n\<close> 3 show ?thesis by simp
qed auto

lemma ReadAutoCloser_Read_shrinks:
  "0 < n \<Longrightarrow> ReadAutoCloser_Read r n = ((bs, None), r') \<Longrightarrow> pending r' < pending r"
  by (cases r) (auto simp: pending_def split: prod.splits dest: rd_shrinks)

function ReadFrom ::
  "ReadAutoCloser \<Rightarrow> byte list \<Rightarrow> (byte list \<times> error option) \<times> ReadAutoCloser" where
  "ReadFrom r w =
     (case ReadAutoCloser_Read r MinRead of
        ((bs, None), r') \<Rightarrow> ReadFrom r' (w @ bs)
      | ((bs, Some e), r') \<Rightarrow> ((w @ bs, if e = EOF then None else Some e), r'))"
  by pat_completeness auto
termination
proof (relation "measure (\<lambda>(r, w). pending r)")
  fix r :: ReadAutoCloser and w :: "byte list" and res r' bs e
  assume "(res, r') = ReadAutoCloser_Read r MinRead" and "(bs, e) = res" and "e = None"
  then have "ReadAutoCloser_Read r MinRead = ((bs, None), r')" by simp
  then have "pending r' < pending r"
    by (rule ReadAutoCloser_Read_shrinks [rotated]) (simp add: MinRead_def)
  then show "((r', w @ bs), r, w) \<in> measure (\<lambda>(r, w). pending r)" by simp
qed simp

declare ReadFrom.simps [simp del]

text \<open>The bytes now in \<open>w\<close>, the error \<^verbatim>\<open>io.Copy\<close> returns, and the source after it.\<close>

definition io_Copy :: "ReadAutoCloser \<Rightarrow> (byte list \<times> error option) \<times> ReadAutoCloser" where
  "io_Copy src = ReadFrom src []"

text \<open>
  \<^verbatim>\<open>Synchronize\<close> calls \<^verbatim>\<open>io.Copy\<close> as a statement: both of its results are dropped.
  The reads consume the reader the old Pipe holds, so the old Pipe's source is updated in
  the heap.
\<close>

fun Synchronize :: "heap \<Rightarrow> ptr \<Rightarrow> panic + ptr \<times> heap" where
  "Synchronize h None = Inr (None, h)"
| "Synchronize h (Some a) =
     (if Error h (Some a) \<noteq> None \<or> \<not> async (h ! a) then Inr (Some a, h)
      else (let ((w, dropped), r) = io_Copy (Reader (h ! a));
                h1 = h[a := (h ! a)\<lparr>Reader := r\<rparr>];
                (q, h2) = NewPipe h1;
                (q', h3) = WithReader h2 q (bytes_NewReader w)
            in withAsync h3 q' False))"

section \<open>The stage runner\<close>

text \<open>
  Modelled from the spec: how a stage records its failure, and the join \<^verbatim>\<open>Wait()\<close>, are
  not among the sources; \<^verbatim>\<open>pipes.go\<close> has only the slot and \<^verbatim>\<open>SetError\<close>, which
  overwrites. The spec (4.3, 2): a later stage's own failure is recorded only if no
  upstream failure already exists. The spec (4.3, 4): the join returns the chain's first
  recorded error, or nil. \<open>stage_failures\<close> is the chain meeting the errors of the list one
  after the other.
\<close>

definition stage_fail :: "heap \<Rightarrow> ptr \<Rightarrow> error \<Rightarrow> heap" where
  "stage_fail h p e = (if Error h p = None then SetError h p (Some e) else h)"

definition wait :: "heap \<Rightarrow> ptr \<Rightarrow> error option" where
  "wait h p = Error h p"

definition stage_failures :: "heap \<Rightarrow> ptr \<Rightarrow> error list \<Rightarrow> heap" where
  "stage_failures h p es = fold (\<lambda>e h'. stage_fail h' p e) es h"

text \<open>
  Modelled from the spec: the combinators that apply a transformation to a Pipe, in batch
  and in streaming mode, are not among the sources; only their callers in
  \<^verbatim>\<open>pipes_test.go\<close> are. A pure per-record stage is a function from a record to the
  records it emits for it, in order. The spec (Glossary): in batch mode each stage fully
  completes before the next begins, operating on fully materialized data.
\<close>

type_synonym 'r stage = "'r \<Rightarrow> 'r list"

definition batch_stage :: "'r stage \<Rightarrow> 'r list \<Rightarrow> 'r list" where
  "batch_stage f xs = concat (map f xs)"

definition batch_chain :: "'r stage list \<Rightarrow> 'r list \<Rightarrow> 'r list" where
  "batch_chain fs xs = fold batch_stage fs xs"

text \<open>
  Modelled from the spec: the streaming mode of the same combinators, which is not among
  the sources either. The spec (4.3 and Glossary): consecutive stages run concurrently, each
  consuming output from its predecessor as it becomes available, and whatever a stage emits
  for input X is fully written before it emits for input Y, for X preceding Y. The
  concurrent stages are written as an interleaving. A state holds one queue per stage, the
  records waiting for it, and after them the output of the chain; a step is any one stage
  taking the record at the head of its queue and appending what it emits for it to the
  next queue. The bound of the channel between two stages restricts which steps may be
  taken, not what a step does. A run is any sequence of steps; the chain has finished when
  no record waits for a stage.
\<close>

inductive stream_step :: "'r stage list \<Rightarrow> 'r list list \<Rightarrow> 'r list list \<Rightarrow> bool" where
  first: "stream_step (f # fs) ((x # q) # q' # qs) (q # (q' @ f x) # qs)"
| later: "stream_step fs qs qs' \<Longrightarrow> stream_step (f # fs) (q # qs) (q # qs')"

inductive stream_run :: "'r stage list \<Rightarrow> 'r list list \<Rightarrow> 'r list list \<Rightarrow> bool" where
  idle: "stream_run fs qs qs"
| step: "stream_step fs qs qs' \<Longrightarrow> stream_run fs qs' qs'' \<Longrightarrow> stream_run fs qs qs''"

definition stream_start :: "'r stage list \<Rightarrow> 'r list \<Rightarrow> 'r list list" where
  "stream_start fs xs = xs # replicate (length fs) []"

definition stream_done :: "'r list list \<Rightarrow> bool" where
  "stream_done qs = list_all (\<lambda>q. q = []) (butlast qs)"

text \<open>
  Modelled from the spec: the Pipe a combinator returns, which the missing combinators
  build. The spec (System overview): each combinator call returns a new Pipe whose source
  is connected to the previous one. When no stage has failed its source delivers the
  output of the chain, its error is nil, and its flag is the mode of the chain.
\<close>

definition chain_pipe :: "bool \<Rightarrow> byte list \<Rightarrow> Pipe" where
  "chain_pipe streaming out =
     \<lparr>Reader = NewReadAutoCloser (bytes_NewReader out), err = None, async = streaming\<rparr>"

section \<open>Specification functions\<close>

text \<open>
  The words of the spec, as functions of their own, to compare the code against. What a
  drain of a source collects: the data up to the first fault or the end of the source, the
  fault that stopped it, and what the source still holds after it.
\<close>

fun upto_fault :: "item list \<Rightarrow> byte list" where
  "upto_fault [] = []"
| "upto_fault (Data b # xs) = b # upto_fault xs"
| "upto_fault (Fault e # xs) = []"

fun first_fault :: "item list \<Rightarrow> error option" where
  "first_fault [] = None"
| "first_fault (Data b # xs) = first_fault xs"
| "first_fault (Fault e # xs) = Some e"

fun after_fault :: "item list \<Rightarrow> item list" where
  "after_fault [] = []"
| "after_fault (Data b # xs) = after_fault xs"
| "after_fault (Fault e # xs) = xs"

definition buffered :: "ReadAutoCloser \<Rightarrow> byte list" where
  "buffered r = (case r of None \<Rightarrow> [] | Some s \<Rightarrow> upto_fault (feed s))"

definition drain_error :: "ReadAutoCloser \<Rightarrow> error option" where
  "drain_error r =
     (case r of
        None \<Rightarrow> None
      | Some s \<Rightarrow> (case first_fault (feed s) of
                    None \<Rightarrow> None
                  | Some e \<Rightarrow> if e = EOF then None else Some e))"

definition drained :: "ReadAutoCloser \<Rightarrow> ReadAutoCloser" where
  "drained r =
     (case r of
        None \<Rightarrow> None
      | Some s \<Rightarrow> Some (s\<lparr>feed := after_fault (feed s),
                          released := (released s \<or> first_fault (feed s) = None
                                       \<or> first_fault (feed s) = Some EOF)\<rparr>))"

text \<open>
  The decimal text of a number, as \<^verbatim>\<open>os/exec\<close> writes the status into the text
  \<^verbatim>\<open>exit status N\<close> of its error.
\<close>

definition digitChar :: "nat \<Rightarrow> char" where
  "digitChar d = ''0123456789'' ! d"

function Itoa :: "nat \<Rightarrow> string" where
  "Itoa n = (if n < 10 then [digitChar n] else Itoa (n div 10) @ [digitChar (n mod 10)])"
  by pat_completeness auto
termination
  by (relation "measure id") auto

declare Itoa.simps [simp del]

text \<open>
  What a chain in a given state will have delivered once every stage has consumed all
  that waits for it: the first stage is run to its end, then the second, and so on.
\<close>

fun flush :: "'r stage list \<Rightarrow> 'r list list \<Rightarrow> 'r list" where
  "flush (f # fs) (q # q' # qs) = flush fs ((q' @ batch_stage f q) # qs)"
| "flush fs [] = []"
| "flush fs (q # qs) = q"

section \<open>Example states\<close>

text \<open>A Pipe as \<^verbatim>\<open>NewPipe()\<close> makes it, and one that carries an error.\<close>

definition new_pipe :: Pipe where
  "new_pipe = \<lparr>Reader = None, err = None, async = False\<rparr>"

definition failed_pipe :: Pipe where
  "failed_pipe = \<lparr>Reader = None, err = Some (ErrorString ''exit status 3''), async = False\<rparr>"

text \<open>A Pipe that carries an error while its source still holds the two bytes \<^verbatim>\<open>hi\<close>.\<close>

definition failed_pipe_with_data :: Pipe where
  "failed_pipe_with_data =
     \<lparr>Reader = NewReadAutoCloser (bytes_NewReader [104, 105]),
      err = Some (ErrorString ''exit status 3''), async = False\<rparr>"

text \<open>
  A streaming Pipe with two bytes to deliver, and one whose source delivers two bytes and
  then fails: its third read returns an error that is not \<^verbatim>\<open>io.EOF\<close>.
\<close>

definition streaming_pipe :: Pipe where
  "streaming_pipe =
     \<lparr>Reader = NewReadAutoCloser (bytes_NewReader [104, 105]), err = None, async = True\<rparr>"

definition faulty_stream_pipe :: Pipe where
  "faulty_stream_pipe =
     \<lparr>Reader = Some \<lparr>feed = [Data 104, Data 105, Fault (ErrorString ''read: connection reset'')],
                      released = False\<rparr>,
      err = None, async = True\<rparr>"

text \<open>A Pipe whose error has the given text, as the subprocess stages set it.\<close>

definition status_pipe :: "string \<Rightarrow> Pipe" where
  "status_pipe text = \<lparr>Reader = None, err = Some (ErrorString text), async = False\<rparr>"

section \<open>Shared lemmas\<close>

lemma err_list_update: "err x = err (h ! a) \<Longrightarrow> err (h[a := x] ! b) = err (h ! b)"
  by (cases "a < length h") (auto simp: nth_list_update list_update_beyond)

text \<open>What each function other than \<^verbatim>\<open>SetError\<close> leaves of the error slots.\<close>

lemma Close_err: "b < length h \<Longrightarrow> err (snd (Close h p) ! b) = err (h ! b)"
  by (cases p) (auto simp: err_list_update split: prod.splits)

lemma Read_err: "b < length h \<Longrightarrow> err (snd (Read h p n) ! b) = err (h ! b)"
  by (cases p) (auto simp: err_list_update split: prod.splits)

lemma WithReader_err: "b < length h \<Longrightarrow> err (snd (WithReader h p r) ! b) = err (h ! b)"
  by (cases p) (auto simp: err_list_update)

lemma withAsync_err:
  "b < length h \<Longrightarrow> withAsync h p v = Inr (q, h') \<Longrightarrow> err (h' ! b) = err (h ! b)"
  by (cases p) (auto simp: err_list_update)

lemma NewPipe_err: "b < length h \<Longrightarrow> err (snd (NewPipe h) ! b) = err (h ! b)"
  by (simp add: NewPipe_def nth_append)

lemma Stream_err: "b < length h \<Longrightarrow> Stream h = Inr (q, h') \<Longrightarrow> err (h' ! b) = err (h ! b)"
  by (auto simp: Stream_def NewPipe_def nth_append nth_list_update)

lemma Pipe_Stream_err:
  "b < length h \<Longrightarrow> Pipe_Stream h p = Inr (q, h') \<Longrightarrow> err (h' ! b) = err (h ! b)"
  by (auto simp: Pipe_Stream_def dest: withAsync_err split: if_splits)

lemma Synchronize_err:
  "b < length h \<Longrightarrow> Synchronize h p = Inr (q, h') \<Longrightarrow> err (h' ! b) = err (h ! b)"
  by (cases p) (auto simp: NewPipe_def nth_append err_list_update split: if_splits prod.splits)

text \<open>What \<^verbatim>\<open>io.Copy\<close> collects, by induction on its loop.\<close>

lemma leading_spec:
  "leading xs n = (bs, rest) \<Longrightarrow>
     upto_fault xs = bs @ upto_fault rest \<and> first_fault xs = first_fault rest
     \<and> after_fault xs = after_fault rest"
  by (induction xs n arbitrary: bs rest rule: leading.induct)
     (auto split: if_splits prod.splits)

lemma ReadFrom_None: "ReadFrom None w = ((w, None), None)"
  by (subst ReadFrom.simps) simp

lemma ReadFrom_spec:
  "ReadFrom r w = ((w @ buffered r, drain_error r), drained r)"
proof (induction r w rule: ReadFrom.induct)
  case (1 r w)
  show ?case
  proof (cases r)
    case None
    then show ?thesis
      by (simp add: ReadFrom_None buffered_def drain_error_def drained_def)
  next
    case (Some s)
    show ?thesis
    proof (cases "feed s")
      case Nil
      with Some show ?thesis
        by (subst ReadFrom.simps) (simp add: buffered_def drain_error_def drained_def)
    next
      case (Cons x xs)
      show ?thesis
      proof (cases x)
        case (Fault e)
        with Some Cons show ?thesis
          by (subst ReadFrom.simps) (auto simp: buffered_def drain_error_def drained_def)
      next
        case (Data b)
        obtain bs rest where L: "leading (Data b # xs) MinRead = (bs, rest)"
          by (cases "leading (Data b # xs) MinRead") auto
        let ?r' = "Some (s\<lparr>feed := rest, released := released s\<rparr>)"
        have R: "ReadAutoCloser_Read r MinRead = ((bs, None), ?r')"
          using Some Cons Data L by simp
        have IH: "ReadFrom ?r' (w @ bs) = (((w @ bs) @ buffered ?r', drain_error ?r'), drained ?r')"
          using "1.IH" [of "(bs, None)" ?r' bs None] R by simp
        have "ReadFrom r w = ReadFrom ?r' (w @ bs)"
          by (subst ReadFrom.simps) (simp add: R)
        with IH leading_spec [OF L] Some Cons Data show ?thesis
          by (simp add: buffered_def drain_error_def drained_def)
      qed
    qed
  qed
qed

lemma io_Copy_spec: "io_Copy r = ((buffered r, drain_error r), drained r)"
  by (simp add: io_Copy_def ReadFrom_spec)

lemma upto_fault_data [simp]: "upto_fault (map Data bs) = bs"
  by (induction bs) auto

lemma first_fault_data [simp]: "first_fault (map Data bs) = None"
  by (induction bs) auto

lemma after_fault_data [simp]: "after_fault (map Data bs) = []"
  by (induction bs) auto

text \<open>
  The match of \<^verbatim>\<open>exitStatusPattern\<close>: the digits of a match are the longest run of
  digits at the end of the text, so the text has at most one place where a match starts.
\<close>

lemma matchHere_Some:
  assumes "matchHere t = Some ds"
  shows "t = ''exit status '' @ ds \<and> ds \<noteq> [] \<and> list_all isDigit ds"
proof -
  let ?c = "take 12 t = ''exit status '' \<and> drop 12 t \<noteq> [] \<and> list_all isDigit (drop 12 t)"
  from assms have I: "(if ?c then Some (drop 12 t) else None) = Some ds"
    unfolding matchHere_def Let_def .
  have c: ?c
  proof (rule ccontr)
    assume "\<not> ?c"
    then have "(if ?c then Some (drop 12 t) else None) = None" by (rule if_not_P)
    with I show False by (simp only: option.distinct)
  qed
  then have "(if ?c then Some (drop 12 t) else None) = Some (drop 12 t)" by (rule if_P)
  with I have ds: "drop 12 t = ds" by (simp only: option.inject)
  have "t = take 12 t @ drop 12 t" by (rule append_take_drop_id [symmetric])
  with c ds show ?thesis by metis
qed

lemma matchHere_here:
  "ds \<noteq> [] \<Longrightarrow> list_all isDigit ds \<Longrightarrow> matchHere (''exit status '' @ ds) = Some ds"
  by (simp add: matchHere_def)

lemma FindStringSubmatch_shape:
  "FindStringSubmatch s = []
   \<or> (\<exists>pre ds. FindStringSubmatch s = [''exit status '' @ ds, ds]
         \<and> s = pre @ ''exit status '' @ ds \<and> ds \<noteq> [] \<and> list_all isDigit ds)"
proof (induction s)
  case Nil
  then show ?case by simp
next
  case (Cons c cs)
  show ?case
  proof (cases "matchHere (c # cs)")
    case None
    with Cons show ?thesis
      by (auto intro: exI [of _ "c # pre" for pre])
  next
    case (Some ds)
    from matchHere_Some [OF Some] Some show ?thesis
      by (auto intro: exI [of _ "[]"])
  qed
qed

lemma FindStringSubmatch_finds:
  "ds \<noteq> [] \<Longrightarrow> list_all isDigit ds \<Longrightarrow> FindStringSubmatch (pre @ ''exit status '' @ ds) \<noteq> []"
proof (induction pre)
  case Nil
  then show ?case using matchHere_here [of ds] by simp
next
  case (Cons c pre)
  then show ?case by (simp split: option.splits)
qed

lemma digits_are_the_tail:
  assumes "s = pre @ ''exit status '' @ ds" and "list_all isDigit ds"
  shows "ds = rev (takeWhile isDigit (rev s))"
proof -
  let ?rest = "rev (pre @ ''exit status'')"
  have s: "rev s = rev ds @ CHR '' '' # ?rest"
    using assms(1) by simp
  have "takeWhile isDigit (rev ds @ CHR '' '' # ?rest)
      = rev ds @ takeWhile isDigit (CHR '' '' # ?rest)"
    by (rule takeWhile_append2) (use assms(2) in \<open>simp add: list_all_iff\<close>)
  also have "takeWhile isDigit (CHR '' '' # ?rest) = []"
    by (simp add: isDigit_def)
  finally have "takeWhile isDigit (rev s) = rev ds"
    by (simp only: s append_Nil2)
  then show ?thesis by simp
qed

lemma FindStringSubmatch_match:
  assumes "ds \<noteq> []" and "list_all isDigit ds"
  shows "FindStringSubmatch (pre @ ''exit status '' @ ds) = [''exit status '' @ ds, ds]"
proof -
  let ?s = "pre @ ''exit status '' @ ds"
  from FindStringSubmatch_shape [of ?s] FindStringSubmatch_finds [OF assms, of pre]
  obtain pre' ds' where F: "FindStringSubmatch ?s = [''exit status '' @ ds', ds']"
    and s: "?s = pre' @ ''exit status '' @ ds'" and d: "list_all isDigit ds'"
    by blast
  have "ds' = rev (takeWhile isDigit (rev ?s))"
    using s d by (rule digits_are_the_tail)
  moreover have "ds = rev (takeWhile isDigit (rev ?s))"
    using refl assms(2) by (rule digits_are_the_tail)
  ultimately show ?thesis using F by simp
qed

lemma FindStringSubmatch_no_match:
  assumes "\<forall>pre ds. ds \<noteq> [] \<and> list_all isDigit ds \<longrightarrow> s \<noteq> pre @ ''exit status '' @ ds"
  shows "FindStringSubmatch s = []"
  using FindStringSubmatch_shape [of s] assms by blast

lemma Atoi_digits:
  assumes "ds \<noteq> []" and "list_all isDigit ds"
  shows "Atoi ds = (if decimal ds \<le> maxInt then Some (decimal ds) else None)"
proof -
  obtain c r where ds: "ds = c # r" using assms(1) by (cases ds) auto
  with assms(2) have "isDigit c" by simp
  then have "c \<noteq> CHR ''-''" and "c \<noteq> CHR ''+''"
    by (auto simp: isDigit_def)
  with assms ds show ?thesis
    by (auto simp: Atoi_def)
qed

lemma digitVal_digitChar: "d < 10 \<Longrightarrow> digitVal (digitChar d) = int d"
proof -
  assume "d < 10"
  then have "d \<in> {0, 1, 2, 3, 4, 5, 6, 7, 8, 9}" by auto
  then show ?thesis
    by (auto simp: digitVal_def digitChar_def)
qed

lemma isDigit_digitChar: "d < 10 \<Longrightarrow> isDigit (digitChar d)"
proof -
  assume "d < 10"
  then have "d \<in> {0, 1, 2, 3, 4, 5, 6, 7, 8, 9}" by auto
  then show ?thesis
    by (auto simp: isDigit_def digitChar_def)
qed

lemma decimal_snoc: "decimal (ds @ [c]) = decimal ds * 10 + digitVal c"
  by (simp add: decimal_def)

lemma Itoa_digits: "Itoa n \<noteq> [] \<and> list_all isDigit (Itoa n) \<and> decimal (Itoa n) = int n"
proof (induction n rule: Itoa.induct)
  case (1 n)
  show ?case
  proof (cases "n < 10")
    case True
    then show ?thesis
      by (subst (1 2 3) Itoa.simps) (simp add: isDigit_digitChar digitVal_digitChar decimal_def)
  next
    case False
    with 1 have IH: "list_all isDigit (Itoa (n div 10))" "decimal (Itoa (n div 10)) = int (n div 10)"
      by simp_all
    have "n mod 10 < 10" by simp
    with False IH show ?thesis
      by (subst (1 2 3) Itoa.simps)
         (simp add: isDigit_digitChar digitVal_digitChar decimal_snoc zdiv_int zmod_int)
  qed
qed

lemma Itoa_127: "Itoa 127 = ''127''"
  by (simp add: Itoa.simps digitChar_def)

lemma bogus_no_match:
  "\<forall>pre ds. ds \<noteq> [] \<and> list_all isDigit ds \<longrightarrow> ''bogus'' \<noteq> pre @ ''exit status '' @ ds"
  by (auto dest: arg_cong [where f = length])

text \<open>The table of \<^verbatim>\<open>TestExitStatus\<close>.\<close>

lemma TestExitStatus:
  "ExitStatus [status_pipe ''''] (Some 0) = 0"
  "ExitStatus [status_pipe ''bogus''] (Some 0) = 0"
  "ExitStatus [status_pipe ''exit status bogus''] (Some 0) = 0"
  "ExitStatus [status_pipe ''exit status 127''] (Some 0) = 127"
  "ExitStatus [status_pipe ''exit status 1''] (Some 0) = 1"
  "ExitStatus [status_pipe ''exit status 0''] (Some 0) = 0"
  "ExitStatus [status_pipe ''exit status 1 followed by junk''] (Some 0) = 0"
  "ExitStatus [new_pipe] (Some 0) = 0"
  "ExitStatus [status_pipe ''exit status 9223372036854775807''] (Some 0) = 9223372036854775807"
  "ExitStatus [status_pipe ''exit status 9223372036854775808''] (Some 0) = 0"
  by (simp_all add: ExitStatus_def status_pipe_def new_pipe_def matchHere_def isDigit_def Atoi_def
      decimal_def digitVal_def maxInt_def)

text \<open>Once an error is set, recording a later failure changes nothing.\<close>

lemma stage_fail_keeps: "Error h p = Some e0 \<Longrightarrow> stage_fail h p e = h"
  by (simp add: stage_fail_def)

lemma stage_failures_keep: "Error h p = Some e0 \<Longrightarrow> stage_failures h p es = h"
  by (induction es) (simp_all add: stage_failures_def stage_fail_def)

text \<open>
  Streaming: a step does not change what the chain will have delivered in the end, every
  state can be run to its end, and a chain that has finished has delivered it.
\<close>

lemma batch_stage_Cons: "batch_stage f (x # xs) = f x @ batch_stage f xs"
  by (simp add: batch_stage_def)

lemma batch_stage_append: "batch_stage f (xs @ ys) = batch_stage f xs @ batch_stage f ys"
  by (simp add: batch_stage_def)

lemma stream_step_shape:
  "stream_step fs qs qs' \<Longrightarrow> \<exists>q r q' r'. qs = q # r \<and> qs' = q' # r' \<and> length qs' = length qs"
  by (induction rule: stream_step.induct) auto

lemma stream_step_flush:
  "stream_step fs qs qs' \<Longrightarrow> flush fs ((hd qs @ B) # tl qs) = flush fs ((hd qs' @ B) # tl qs')"
proof (induction arbitrary: B rule: stream_step.induct)
  case (first f fs x q q' qs)
  show ?case by (simp add: batch_stage_Cons batch_stage_append)
next
  case (later fs qs qs' f q)
  from stream_step_shape [OF later.hyps] obtain q1 r q1' r'
    where qs: "qs = q1 # r" and qs': "qs' = q1' # r'" by blast
  from later.IH [of "batch_stage f (q @ B)"] qs qs' show ?case by simp
qed

lemma stream_step_keeps_flush: "stream_step fs qs qs' \<Longrightarrow> flush fs qs' = flush fs qs"
  using stream_step_flush [of fs qs qs' "[]"] stream_step_shape [of fs qs qs'] by auto

lemma stream_run_keeps_flush: "stream_run fs qs qs' \<Longrightarrow> flush fs qs' = flush fs qs"
  by (induction rule: stream_run.induct) (auto dest: stream_step_keeps_flush)

lemma stream_run_length: "stream_run fs qs qs' \<Longrightarrow> length qs' = length qs"
  by (induction rule: stream_run.induct) (auto dest: stream_step_shape)

lemma flush_start: "flush fs (xs # replicate (length fs) []) = batch_chain fs xs"
  by (induction fs arbitrary: xs) (simp_all add: batch_chain_def)

lemma flush_done:
  "length qs = Suc (length fs) \<Longrightarrow> stream_done qs \<Longrightarrow> flush fs qs = last qs"
proof (induction fs arbitrary: qs)
  case Nil
  then show ?case by (cases qs) auto
next
  case (Cons f fs)
  then obtain q q' r where qs: "qs = q # q' # r"
    by (cases qs; cases "tl qs") auto
  with Cons.prems have "q = []" and "stream_done (q' # r)" and "length (q' # r) = Suc (length fs)"
    by (auto simp: stream_done_def)
  with Cons.IH [of "q' # r"] qs show ?case
    by (simp add: batch_stage_def)
qed

lemma stream_run_trans:
  "stream_run fs qs qs' \<Longrightarrow> stream_run fs qs' qs'' \<Longrightarrow> stream_run fs qs qs''"
  by (induction rule: stream_run.induct) (auto intro: stream_run.intros)

lemma stream_run_later:
  "stream_run fs qs qs' \<Longrightarrow> stream_run (f # fs) (q # qs) (q # qs')"
  by (induction rule: stream_run.induct) (auto intro: stream_run.intros stream_step.intros)

lemma first_stage_drains:
  "stream_run (f # fs) (q # q' # qs) ([] # (q' @ batch_stage f q) # qs)"
proof (induction q arbitrary: q')
  case Nil
  show ?case by (simp add: batch_stage_def stream_run.idle)
next
  case (Cons x q)
  have "stream_step (f # fs) ((x # q) # q' # qs) (q # (q' @ f x) # qs)"
    by (rule stream_step.first)
  with Cons [of "q' @ f x"] show ?case
    by (auto simp: batch_stage_Cons intro: stream_run.step)
qed

lemma stream_completes:
  "length qs = Suc (length fs) \<Longrightarrow>
     stream_run fs qs (replicate (length fs) [] @ [flush fs qs])"
proof (induction fs arbitrary: qs)
  case Nil
  then show ?case by (cases qs) (auto intro: stream_run.idle)
next
  case (Cons f fs)
  then obtain q q' r where qs: "qs = q # q' # r"
    by (cases qs; cases "tl qs") auto
  let ?mid = "(q' @ batch_stage f q) # r"
  have 1: "stream_run (f # fs) qs ([] # ?mid)"
    unfolding qs by (rule first_stage_drains)
  from Cons.prems qs have "length ?mid = Suc (length fs)" by simp
  then have "stream_run fs ?mid (replicate (length fs) [] @ [flush fs ?mid])"
    by (rule Cons.IH)
  then have 2: "stream_run (f # fs) ([] # ?mid) ([] # replicate (length fs) [] @ [flush fs ?mid])"
    by (rule stream_run_later)
  from stream_run_trans [OF 1 2] qs show ?case by simp
qed

lemma stream_done_result: "stream_done (replicate n [] @ [out])"
  by (simp add: stream_done_def list_all_iff)

lemma streaming_output:
  assumes "stream_run fs (stream_start fs xs) qs" and "stream_done qs"
  shows "last qs = batch_chain fs xs"
proof -
  from assms(1) have len: "length qs = Suc (length fs)"
    by (auto dest: stream_run_length simp: stream_start_def)
  from assms(1) have "flush fs qs = flush fs (stream_start fs xs)"
    by (rule stream_run_keeps_flush)
  with flush_done [OF len assms(2)] show ?thesis
    by (simp add: stream_start_def flush_start)
qed

lemma streaming_finishes:
  "stream_run fs (stream_start fs xs) (replicate (length fs) [] @ [batch_chain fs xs])"
  using stream_completes [of "stream_start fs xs" fs]
  by (simp add: stream_start_def flush_start)

text \<open>\<^verbatim>\<open>Synchronize\<close> on a streaming Pipe without an error, in one equation.\<close>

lemma Synchronize_streaming:
  assumes "a < length h" and "err (h ! a) = None" and "async (h ! a)"
  shows "Synchronize h (Some a)
    = Inr (Some (length h),
        h[a := (h ! a)\<lparr>Reader := drained (Reader (h ! a))\<rparr>]
        @ [\<lparr>Reader = NewReadAutoCloser (bytes_NewReader (buffered (Reader (h ! a)))),
            err = None, async = False\<rparr>])"
  using assms by (simp add: io_Copy_spec NewPipe_def)

section \<open>The claims\<close>

text \<open>
  C4. On an absent (nil) Pipe every public operation is a no-op that returns its zero
  value: \<^verbatim>\<open>Error()\<close> returns nil, \<^verbatim>\<open>ExitStatus()\<close> returns 0, \<^verbatim>\<open>Close()\<close> returns nil
  and \<^verbatim>\<open>Read(b)\<close> returns \<^verbatim>\<open>(0, io.EOF)\<close>; none of them panics or touches the heap.
\<close>

theorem absent_pipe_is_safe:
  "Error h None = None \<and> ExitStatus h None = 0 \<and> Close h None = (None, h)
   \<and> Read h None n = (([], Some EOF), h)"
  by (simp add: ExitStatus_def)

text \<open>
  C8. For a present Pipe and every error value \<open>e\<close>, nil included, \<^verbatim>\<open>SetError(e)\<close>
  overwrites the error slot: \<^verbatim>\<open>Error()\<close> then returns \<open>e\<close>, whatever the slot held, and
  nothing else of the heap changes. No other function of \<^verbatim>\<open>pipes.go\<close> changes the error
  slot of a Pipe that exists: the error is cleared only by such an override.
\<close>

theorem SetError_overwrites:
  assumes "a < length h"
  shows "Error (SetError h (Some a) e) (Some a) = e
    \<and> length (SetError h (Some a) e) = length h
    \<and> Reader (SetError h (Some a) e ! a) = Reader (h ! a)
    \<and> async (SetError h (Some a) e ! a) = async (h ! a)
    \<and> (\<forall>b. b \<noteq> a \<longrightarrow> SetError h (Some a) e ! b = h ! b)
    \<and> (\<forall>b p n r v q h'. b < length h \<longrightarrow>
          err (snd (Close h p) ! b) = err (h ! b)
        \<and> err (snd (Read h p n) ! b) = err (h ! b)
        \<and> err (snd (WithReader h p r) ! b) = err (h ! b)
        \<and> err (snd (NewPipe h) ! b) = err (h ! b)
        \<and> (withAsync h p v = Inr (q, h') \<longrightarrow> err (h' ! b) = err (h ! b))
        \<and> (Stream h = Inr (q, h') \<longrightarrow> err (h' ! b) = err (h ! b))
        \<and> (Pipe_Stream h p = Inr (q, h') \<longrightarrow> err (h' ! b) = err (h ! b))
        \<and> (Synchronize h p = Inr (q, h') \<longrightarrow> err (h' ! b) = err (h ! b)))"
  using assms
  by (simp add: Close_err Read_err WithReader_err NewPipe_err)
     (blast intro: withAsync_err Stream_err Pipe_Stream_err Synchronize_err)

theorem SetError_overwrites_witness:
  "(0::nat) < length [failed_pipe]
   \<and> Error (SetError [failed_pipe] (Some 0) None) (Some 0) = None
   \<and> Error (SetError [failed_pipe] (Some 0) (Some EOF)) (Some 0) = Some EOF
   \<and> err (snd (Read [failed_pipe] (Some 0) 8) ! 0) = Some (ErrorString ''exit status 3'')"
proof -
  have live: "(0::nat) < length [failed_pipe]" by simp
  show ?thesis
    using live SetError_overwrites [OF live, of None] SetError_overwrites [OF live, of "Some EOF"]
    by (simp add: failed_pipe_def)
qed

text \<open>
  C9. \<^verbatim>\<open>Stream()\<close> returns a fresh Pipe (its address is not one of the heap before the
  call) with streaming on, the empty source, which reads as exhausted, and no error. The
  method \<^verbatim>\<open>p.Stream()\<close> returns an absent Pipe as it is, and a present Pipe as the same
  Pipe with streaming set and its source and error unchanged. Neither panics.
\<close>

theorem streaming_mode_selection:
  "Stream h = Inr (Some (length h), h @ [\<lparr>Reader = None, err = None, async = True\<rparr>])
   \<and> \<not> live h (Some (length h))
   \<and> fst (Read (h @ [\<lparr>Reader = None, err = None, async = True\<rparr>]) (Some (length h)) n)
       = ([], Some EOF)
   \<and> Pipe_Stream h None = Inr (None, h)
   \<and> (a < length h \<longrightarrow>
        Pipe_Stream h (Some a)
          = Inr (Some a, h[a := \<lparr>Reader = Reader (h ! a), err = err (h ! a), async = True\<rparr>]))"
proof -
  have upd: "(h ! a)\<lparr>async := True\<rparr> = \<lparr>Reader = Reader (h ! a), err = err (h ! a), async = True\<rparr>"
    by (cases "h ! a") simp
  show ?thesis
    by (simp add: Stream_def NewPipe_def Pipe_Stream_def upd)
qed

theorem streaming_mode_selection_witness:
  "Stream [failed_pipe] = Inr (Some 1, [failed_pipe, \<lparr>Reader = None, err = None, async = True\<rparr>])
   \<and> (0::nat) < length [failed_pipe]
   \<and> Pipe_Stream [failed_pipe] (Some 0)
       = Inr (Some 0, [\<lparr>Reader = None, err = Some (ErrorString ''exit status 3''), async = True\<rparr>])"
  using streaming_mode_selection [of "[failed_pipe]" 0 0]
  by (simp add: failed_pipe_def)

text \<open>
  C10. On a present Pipe \<^verbatim>\<open>WithReader(r)\<close> returns the same Pipe with only its source
  replaced by the one wrapping \<open>r\<close>: the error and the streaming flag are as before, so an
  error that was set survives, and no other Pipe changes.
\<close>

theorem WithReader_frame:
  assumes "a < length h"
  shows "WithReader h (Some a) r
      = (Some a, h[a := \<lparr>Reader = NewReadAutoCloser r, err = err (h ! a), async = async (h ! a)\<rparr>])
    \<and> Error (snd (WithReader h (Some a) r)) (Some a) = Error h (Some a)
    \<and> async (snd (WithReader h (Some a) r) ! a) = async (h ! a)
    \<and> length (snd (WithReader h (Some a) r)) = length h
    \<and> (\<forall>b. b \<noteq> a \<longrightarrow> snd (WithReader h (Some a) r) ! b = h ! b)"
proof -
  have upd: "(h ! a)\<lparr>Reader := NewReadAutoCloser r\<rparr>
      = \<lparr>Reader = NewReadAutoCloser r, err = err (h ! a), async = async (h ! a)\<rparr>"
    by (cases "h ! a") simp
  from assms show ?thesis by (simp add: upd)
qed

theorem WithReader_frame_witness:
  "(0::nat) < length [failed_pipe]
   \<and> WithReader [failed_pipe] (Some 0) (bytes_NewReader [104, 105]) = (Some 0, [failed_pipe_with_data])
   \<and> Error [failed_pipe_with_data] (Some 0) = Some (ErrorString ''exit status 3'')"
proof -
  have live: "(0::nat) < length [failed_pipe]" by simp
  show ?thesis
    using live WithReader_frame [OF live, of "bytes_NewReader [104, 105]"]
    by (simp add: failed_pipe_def failed_pipe_with_data_def)
qed

text \<open>
  C1, as stated: a Pipe whose error is set returns \<^verbatim>\<open>(0, io.EOF)\<close> from every read,
  whether or not its source still has data. \<^verbatim>\<open>Read\<close> does not look at the error: on a
  Pipe that carries an error and whose source holds two bytes, a read returns the two
  bytes and a nil error.
\<close>

theorem Read_ignores_error_counterexample:
  "Error [failed_pipe_with_data] (Some 0) = Some (ErrorString ''exit status 3'')
   \<and> fst (Read [failed_pipe_with_data] (Some 0) 8) = ([104, 105], None)
   \<and> fst (Read [failed_pipe_with_data] (Some 0) 8) \<noteq> ([], Some EOF)"
  by (simp add: failed_pipe_with_data_def NewReadAutoCloser_def bytes_NewReader_def)

text \<open>
  C1, amended. On a present Pipe \<^verbatim>\<open>Read\<close> forwards to the source whatever the error
  slot holds: setting or clearing the error does not change what a read returns. The read
  returns \<^verbatim>\<open>(0, io.EOF)\<close> when the source is uninitialised or exhausted; when the source
  still has data and the buffer is not empty it returns data and a nil error.
\<close>

theorem Read_forwards_to_source:
  assumes "a < length h"
  shows "fst (Read (SetError h (Some a) e) (Some a) n) = fst (Read h (Some a) n)
    \<and> fst (Read h (Some a) n) = fst (ReadAutoCloser_Read (Reader (h ! a)) n)
    \<and> (Reader (h ! a) = None \<longrightarrow> fst (Read h (Some a) n) = ([], Some EOF))
    \<and> (\<forall>s. Reader (h ! a) = Some s \<and> feed s = [] \<longrightarrow> fst (Read h (Some a) n) = ([], Some EOF))
    \<and> (\<forall>s b xs. Reader (h ! a) = Some s \<and> feed s = Data b # xs \<and> 0 < n \<longrightarrow>
          (\<exists>bs. fst (Read h (Some a) n) = (b # bs, None)))"
  using assms by (auto split: prod.splits)

theorem Read_forwards_to_source_witness:
  "(0::nat) < length [failed_pipe_with_data]
   \<and> fst (Read (SetError [failed_pipe_with_data] (Some 0) None) (Some 0) 8) = ([104, 105], None)
   \<and> fst (Read [failed_pipe] (Some 0) 8) = ([], Some EOF)"
proof -
  have live: "(0::nat) < length [failed_pipe_with_data]" by simp
  show ?thesis
    using live Read_forwards_to_source [OF live, of None 8]
    by (simp add: failed_pipe_def failed_pipe_with_data_def NewReadAutoCloser_def bytes_NewReader_def)
qed

text \<open>
  C2. \<^verbatim>\<open>Synchronize()\<close> returns the same Pipe, with the heap as it was, when the Pipe
  is absent, carries an error or is not in streaming mode. Otherwise it drains the source
  and returns a Pipe at a fresh address, with no error and streaming off, whose source
  wraps the bytes the drain collected: the data of the old source up to its first fault or
  its end. A source without a fault is drained in full and left exhausted and released.
  The other Pipes, and the error and streaming flag of the old one, are unchanged.
\<close>

theorem Synchronize_spec:
  "Synchronize h None = Inr (None, h)
   \<and> (a < length h \<and> (err (h ! a) \<noteq> None \<or> \<not> async (h ! a)) \<longrightarrow>
        Synchronize h (Some a) = Inr (Some a, h))
   \<and> (a < length h \<and> err (h ! a) = None \<and> async (h ! a) \<longrightarrow>
        (\<exists>h'. Synchronize h (Some a) = Inr (Some (length h), h')
           \<and> \<not> live h (Some (length h))
           \<and> length h' = Suc (length h)
           \<and> h' ! length h =
               \<lparr>Reader = NewReadAutoCloser (bytes_NewReader (buffered (Reader (h ! a)))),
                err = None, async = False\<rparr>
           \<and> (\<forall>b. b < length h \<and> b \<noteq> a \<longrightarrow> h' ! b = h ! b)
           \<and> err (h' ! a) = None \<and> async (h' ! a)
           \<and> (Reader (h ! a) = None \<longrightarrow> Reader (h' ! a) = None)
           \<and> (\<forall>s bs. Reader (h ! a) = Some s \<and> feed s = map Data bs \<longrightarrow>
                 buffered (Reader (h ! a)) = bs
                 \<and> Reader (h' ! a) = Some (s\<lparr>feed := [], released := True\<rparr>))))"
  by (auto simp: io_Copy_spec NewPipe_def nth_append buffered_def drained_def)

theorem Synchronize_spec_witness:
  "(0::nat) < length [streaming_pipe] \<and> err (streaming_pipe) = None \<and> async streaming_pipe
   \<and> Synchronize [streaming_pipe] (Some 0)
     = Inr (Some 1,
         [\<lparr>Reader = Some \<lparr>feed = [], released = True\<rparr>, err = None, async = True\<rparr>,
          \<lparr>Reader = Some \<lparr>feed = [Data 104, Data 105], released = False\<rparr>,
           err = None, async = False\<rparr>])
   \<and> err failed_pipe \<noteq> None
   \<and> Synchronize [failed_pipe] (Some 0) = Inr (Some 0, [failed_pipe])
   \<and> \<not> async new_pipe
   \<and> Synchronize [new_pipe] (Some 0) = Inr (Some 0, [new_pipe])"
  using Synchronize_spec [of "[streaming_pipe]" 0] Synchronize_spec [of "[failed_pipe]" 0]
    Synchronize_spec [of "[new_pipe]" 0]
  by (simp add: streaming_pipe_def failed_pipe_def new_pipe_def io_Copy_spec buffered_def
      drain_error_def drained_def NewPipe_def NewReadAutoCloser_def bytes_NewReader_def)

text \<open>
  C7. An error met while \<^verbatim>\<open>Synchronize()\<close> drains the source is to be recorded in the
  error slot. The code calls \<^verbatim>\<open>io.Copy\<close> and drops its results: on a streaming Pipe
  whose source delivers two bytes and then fails, \<^verbatim>\<open>io.Copy\<close> returns the failure, and
  the Pipe \<^verbatim>\<open>Synchronize()\<close> returns holds the two bytes and no error; the old Pipe
  has none either.
\<close>

theorem Synchronize_drops_read_error:
  "io_Copy (Reader faulty_stream_pipe)
     = (([104, 105], Some (ErrorString ''read: connection reset'')),
        Some \<lparr>feed = [], released = False\<rparr>)
   \<and> Synchronize [faulty_stream_pipe] (Some 0)
     = Inr (Some 1,
         [\<lparr>Reader = Some \<lparr>feed = [], released = False\<rparr>, err = None, async = True\<rparr>,
          \<lparr>Reader = Some \<lparr>feed = [Data 104, Data 105], released = False\<rparr>,
           err = None, async = False\<rparr>])
   \<and> Error [\<lparr>Reader = Some \<lparr>feed = [], released = False\<rparr>, err = None, async = True\<rparr>,
          \<lparr>Reader = Some \<lparr>feed = [Data 104, Data 105], released = False\<rparr>,
           err = None, async = False\<rparr>] (Some 1) = None"
  by (simp add: faulty_stream_pipe_def io_Copy_spec buffered_def drain_error_def drained_def
      NewPipe_def NewReadAutoCloser_def bytes_NewReader_def)

text \<open>
  C3. \<^verbatim>\<open>ExitStatus()\<close> is 0 when no error is set. When the text of the error ends
  with \<^verbatim>\<open>exit status\<close>, a space and the decimal text of a number that fits an
  \<^verbatim>\<open>int\<close>, it is that number; more generally, for any non-empty run of digits there,
  it is the value of the digits, or 0 when that value does not fit an \<^verbatim>\<open>int\<close>.
  When the text does not end that way it is 0.
\<close>

theorem ExitStatus_spec:
  "(Error h p = None \<longrightarrow> ExitStatus h p = 0)
   \<and> (Error h p = Some e \<and> error_Error e = pre @ ''exit status '' @ Itoa N \<and> int N \<le> maxInt
        \<longrightarrow> ExitStatus h p = int N)
   \<and> (Error h p = Some e \<and> error_Error e = pre @ ''exit status '' @ ds \<and> ds \<noteq> []
        \<and> list_all isDigit ds
        \<longrightarrow> ExitStatus h p = (if decimal ds \<le> maxInt then decimal ds else 0))
   \<and> (Error h p = Some e
        \<and> (\<forall>pre ds. ds \<noteq> [] \<and> list_all isDigit ds \<longrightarrow> error_Error e \<noteq> pre @ ''exit status '' @ ds)
        \<longrightarrow> ExitStatus h p = 0)"
proof -
  have digits: "ExitStatus h p = (if decimal ds \<le> maxInt then decimal ds else 0)"
    if E: "Error h p = Some e" and T: "error_Error e = pre @ ''exit status '' @ ds"
      and D: "ds \<noteq> []" "list_all isDigit ds" for pre ds
  proof -
    have F: "FindStringSubmatch (error_Error e) = [''exit status '' @ ds, ds]"
      unfolding T using D by (rule FindStringSubmatch_match)
    show ?thesis
      by (simp add: ExitStatus_def E F Atoi_digits [OF D])
  qed
  have number: "ExitStatus h p = int N"
    if E: "Error h p = Some e" and T: "error_Error e = pre @ ''exit status '' @ Itoa N"
      and R: "int N \<le> maxInt"
  proof -
    from Itoa_digits [of N] have D: "Itoa N \<noteq> []" "list_all isDigit (Itoa N)"
      and V: "decimal (Itoa N) = int N" by simp_all
    from digits [OF E T D] V R show ?thesis by simp
  qed
  have nomatch: "ExitStatus h p = 0"
    if E: "Error h p = Some e"
      and N: "\<forall>pre ds. ds \<noteq> [] \<and> list_all isDigit ds \<longrightarrow> error_Error e \<noteq> pre @ ''exit status '' @ ds"
  proof -
    have F: "FindStringSubmatch (error_Error e) = []"
      using N by (rule FindStringSubmatch_no_match)
    show ?thesis by (simp add: ExitStatus_def E F)
  qed
  have absent: "ExitStatus h p = 0" if "Error h p = None"
    using that by (simp add: ExitStatus_def)
  show ?thesis
  proof (intro conjI impI)
    assume "Error h p = None"
    then show "ExitStatus h p = 0" by (rule absent)
  next
    assume "Error h p = Some e \<and> error_Error e = pre @ ''exit status '' @ Itoa N \<and> int N \<le> maxInt"
    then show "ExitStatus h p = int N" using number by blast
  next
    assume "Error h p = Some e \<and> error_Error e = pre @ ''exit status '' @ ds \<and> ds \<noteq> []
        \<and> list_all isDigit ds"
    then show "ExitStatus h p = (if decimal ds \<le> maxInt then decimal ds else 0)"
      using digits by blast
  next
    assume "Error h p = Some e
        \<and> (\<forall>pre ds. ds \<noteq> [] \<and> list_all isDigit ds \<longrightarrow> error_Error e \<noteq> pre @ ''exit status '' @ ds)"
    then show "ExitStatus h p = 0" using nomatch by blast
  qed
qed

theorem ExitStatus_spec_witness:
  "Error [new_pipe] (Some 0) = None \<and> ExitStatus [new_pipe] (Some 0) = 0
   \<and> Error [status_pipe ''exit status 127''] (Some 0) = Some (ErrorString ''exit status 127'')
   \<and> ''exit status 127'' = [] @ ''exit status '' @ Itoa 127 \<and> int 127 \<le> maxInt
   \<and> ExitStatus [status_pipe ''exit status 127''] (Some 0) = int 127
   \<and> ExitStatus [status_pipe ''bogus''] (Some 0) = 0"
proof -
  let ?h = "[status_pipe ''exit status 127'']"
  let ?e = "ErrorString ''exit status 127''"
  have E: "Error ?h (Some 0) = Some ?e"
    by (simp add: status_pipe_def)
  have T': "''exit status 127'' = [] @ ''exit status '' @ Itoa 127"
    by (simp add: Itoa_127)
  then have T: "error_Error ?e = [] @ ''exit status '' @ Itoa 127"
    by (simp only: error_Error.simps)
  have R: "int 127 \<le> maxInt" by (simp add: maxInt_def)
  have E': "Error [status_pipe ''bogus''] (Some 0) = Some (ErrorString ''bogus'')"
    by (simp add: status_pipe_def)
  have N: "\<forall>pre ds. ds \<noteq> [] \<and> list_all isDigit ds
      \<longrightarrow> error_Error (ErrorString ''bogus'') \<noteq> pre @ ''exit status '' @ ds"
    using bogus_no_match by (simp only: error_Error.simps)
  have E0: "Error [new_pipe] (Some 0) = None" by (simp add: new_pipe_def)
  have a: "ExitStatus ?h (Some 0) = int 127"
    by (rule ExitStatus_spec [of ?h "Some 0" ?e "[]" 127, THEN conjunct2, THEN conjunct1, THEN mp])
       (intro conjI E T R)
  have b: "ExitStatus [status_pipe ''bogus''] (Some 0) = 0"
    by (rule ExitStatus_spec [of "[status_pipe ''bogus'']" "Some 0" "ErrorString ''bogus''",
          THEN conjunct2, THEN conjunct2, THEN conjunct2, THEN mp])
       (intro conjI E' N)
  have c: "ExitStatus [new_pipe] (Some 0) = 0"
    by (rule ExitStatus_spec [of "[new_pipe]" "Some 0", THEN conjunct1, THEN mp]) (rule E0)
  show ?thesis
    by (intro conjI E0 c E T' R a b)
qed

text \<open>
  C5. On a chain whose error is already set, the failures that stages record afterwards
  never replace it: the error that \<^verbatim>\<open>Error()\<close> and the join return at the end is the
  first one recorded. On a chain without an error, the first failure recorded is the one
  they return, whatever is recorded after it.
\<close>

theorem first_error_wins:
  assumes "a < length h"
  shows "(Error h (Some a) = Some e \<longrightarrow>
           stage_failures h (Some a) es = h
         \<and> Error (stage_failures h (Some a) es) (Some a) = Some e
         \<and> wait (stage_failures h (Some a) es) (Some a) = Some e)
    \<and> (Error h (Some a) = None \<longrightarrow>
           Error (stage_failures h (Some a) (f # es)) (Some a) = Some f
         \<and> wait (stage_failures h (Some a) (f # es)) (Some a) = Some f)"
proof -
  have later: "stage_failures h' (Some a) es = h'" if "Error h' (Some a) = Some e'" for h' e'
    using that by (rule stage_failures_keep)
  have first: "Error (stage_fail h (Some a) f) (Some a) = Some f" if "Error h (Some a) = None"
    using that assms by (simp add: stage_fail_def)
  have unfold: "stage_failures h (Some a) (f # es) = stage_failures (stage_fail h (Some a) f) (Some a) es"
    by (simp add: stage_failures_def)
  show ?thesis
    using later [of h e] first later [of "stage_fail h (Some a) f" f] unfold
    by (auto simp: wait_def)
qed

theorem first_error_wins_witness:
  "(0::nat) < length [failed_pipe]
   \<and> Error [failed_pipe] (Some 0) = Some (ErrorString ''exit status 3'')
   \<and> wait (stage_failures [failed_pipe] (Some 0) [EOF, ErrorString ''later'']) (Some 0)
       = Some (ErrorString ''exit status 3'')
   \<and> Error [new_pipe] (Some 0) = None
   \<and> wait (stage_failures [new_pipe] (Some 0) [ErrorString ''first'', ErrorString ''second''])
        (Some 0) = Some (ErrorString ''first'')"
proof -
  have lv: "(0::nat) < length [failed_pipe]" and lv': "(0::nat) < length [new_pipe]" by simp_all
  have E: "Error [failed_pipe] (Some 0) = Some (ErrorString ''exit status 3'')"
    by (simp add: failed_pipe_def)
  have E': "Error [new_pipe] (Some 0) = None"
    by (simp add: new_pipe_def)
  from first_error_wins [OF lv, where e = "ErrorString ''exit status 3''"
      and es = "[EOF, ErrorString ''later'']",
      THEN conjunct1, THEN mp, OF E]
  have a: "wait (stage_failures [failed_pipe] (Some 0) [EOF, ErrorString ''later'']) (Some 0)
       = Some (ErrorString ''exit status 3'')"
    by (rule conjunct2 [THEN conjunct2])
  from first_error_wins [OF lv', where f = "ErrorString ''first''"
      and es = "[ErrorString ''second'']",
      THEN conjunct2, THEN mp, OF E']
  have b: "wait (stage_failures [new_pipe] (Some 0) [ErrorString ''first'', ErrorString ''second''])
        (Some 0) = Some (ErrorString ''first'')"
    by (rule conjunct2)
  show ?thesis by (intro conjI lv E a E' b)
qed

text \<open>
  C6. A chain of pure per-record stages, run in streaming mode on an input, can always run
  to its end; and however its stages interleave, once it has finished, draining its Pipe
  with \<^verbatim>\<open>Synchronize()\<close> yields a new Pipe that is the Pipe of the same chain run in
  batch mode on the same input: the same bytes, no error, streaming off.
\<close>

theorem streaming_equals_batch:
  "stream_run fs (stream_start fs xs) (replicate (length fs) [] @ [batch_chain fs xs])
   \<and> stream_done (replicate (length fs) [] @ [batch_chain fs xs])
   \<and> (stream_run fs (stream_start fs xs) qs \<and> stream_done qs \<and> a < length h
        \<and> h ! a = chain_pipe True (concat (map enc (last qs)))
      \<longrightarrow> (\<exists>h'. Synchronize h (Some a) = Inr (Some (length h), h')
              \<and> h' ! length h = chain_pipe False (concat (map enc (batch_chain fs xs)))))"
proof (intro conjI impI)
  show "stream_run fs (stream_start fs xs) (replicate (length fs) [] @ [batch_chain fs xs])"
    by (rule streaming_finishes)
  show "stream_done (replicate (length fs) [] @ [batch_chain fs xs])"
    by (rule stream_done_result)
next
  assume A: "stream_run fs (stream_start fs xs) qs \<and> stream_done qs \<and> a < length h
        \<and> h ! a = chain_pipe True (concat (map enc (last qs)))"
  then have out: "last qs = batch_chain fs xs"
    by (auto intro: streaming_output)
  let ?bytes = "concat (map enc (batch_chain fs xs))"
  from A out have p: "h ! a = chain_pipe True ?bytes" and a: "a < length h" by simp_all
  from p have "err (h ! a) = None" and "async (h ! a)"
    and "buffered (Reader (h ! a)) = ?bytes"
    by (simp_all add: chain_pipe_def buffered_def NewReadAutoCloser_def bytes_NewReader_def)
  with Synchronize_streaming [OF a]
  have S: "Synchronize h (Some a)
    = Inr (Some (length h),
        h[a := (h ! a)\<lparr>Reader := drained (Reader (h ! a))\<rparr>]
        @ [\<lparr>Reader = NewReadAutoCloser (bytes_NewReader ?bytes), err = None, async = False\<rparr>])"
    by (simp only:)
  have "(h[a := (h ! a)\<lparr>Reader := drained (Reader (h ! a))\<rparr>]
        @ [\<lparr>Reader = NewReadAutoCloser (bytes_NewReader ?bytes), err = None, async = False\<rparr>])
        ! length h = chain_pipe False ?bytes"
    by (simp add: chain_pipe_def nth_append)
  with S show "\<exists>h'. Synchronize h (Some a) = Inr (Some (length h), h')
      \<and> h' ! length h = chain_pipe False ?bytes"
    by blast
qed

theorem streaming_equals_batch_witness:
  "stream_run [\<lambda>x. [x, x], \<lambda>x. [Suc x]] (stream_start [\<lambda>x. [x, x], \<lambda>x. [Suc x]] [1, 2])
     [[], [], [2, 2, 3, 3]]
   \<and> stream_done [[], [], [2, 2, 3, 3 :: nat]]
   \<and> (0::nat) < length [chain_pipe True [2, 2, 3, 3]]
   \<and> (\<exists>h'. Synchronize [chain_pipe True [2, 2, 3, 3]] (Some 0) = Inr (Some 1, h')
        \<and> h' ! 1 = chain_pipe False [2, 2, 3, 3])"
proof -
  let ?fs = "[\<lambda>x. [x, x], \<lambda>x. [Suc x]] :: nat stage list"
  let ?enc = "\<lambda>n. [of_nat n] :: byte list"
  let ?h = "[chain_pipe True [2, 2, 3, 3]]"
  note T = streaming_equals_batch [of ?fs "[1, 2]" "[[], [], [2, 2, 3, 3]]" 0 ?h ?enc]
  have B: "batch_chain ?fs [1, 2] = [2, 2, 3, 3]"
    by (simp add: batch_chain_def batch_stage_def)
  have R: "replicate (length ?fs) [] @ [batch_chain ?fs [1, 2]] = [[], [], [2, 2, 3, 3]]"
    by (simp add: batch_chain_def batch_stage_def)
  have run: "stream_run ?fs (stream_start ?fs [1, 2]) [[], [], [2, 2, 3, 3]]"
    using T [THEN conjunct1] unfolding R .
  have dn: "stream_done [[], [], [2, 2, 3, 3 :: nat]]"
    by (simp add: stream_done_def)
  have lv: "(0::nat) < length ?h" by simp
  have pipe: "?h ! 0 = chain_pipe True (concat (map ?enc (last [[], [], [2, 2, 3, 3]])))"
    by simp
  from T [THEN conjunct2, THEN conjunct2, THEN mp, OF conjI [OF run conjI [OF dn conjI [OF lv pipe]]]]
  have "\<exists>h'. Synchronize ?h (Some 0) = Inr (Some 1, h') \<and> h' ! 1 = chain_pipe False [2, 2, 3, 3]"
    unfolding B by simp
  with run dn lv show ?thesis by blast
qed

end
